theory Spec2Isabelle
  imports Main "HOL-Library.FSet"
begin

section \<open>The Minesweeper knowledge engine of \<^verbatim>\<open>week1/projects1/minesweeper/minesweeper.py\<close>\<close>

text \<open>
  The embedding follows the classes \<^verbatim>\<open>Sentence\<close> and \<^verbatim>\<open>MinesweeperAI\<close>.
  A cell is the Python tuple \<^verbatim>\<open>(i, j)\<close> of two unbounded integers. A Python \<^verbatim>\<open>set\<close> is
  a finite set (\<open>fset\<close>): it is compared by its elements and \<^verbatim>\<open>len\<close> is \<open>fcard\<close>.
  The list \<^verbatim>\<open>self.knowledge\<close> is a list of sentence values: the source never stores
  one \<^verbatim>\<open>Sentence\<close> object twice, so updating the objects in place is a \<open>map\<close>.
\<close>

type_synonym cell = "int \<times> int"

subsection \<open>class Sentence\<close>

record sentence =
  cells :: "cell fset"
  count :: int

text \<open>\<^verbatim>\<open>known_mines\<close> and \<^verbatim>\<open>known_safes\<close> return \<^verbatim>\<open>self.cells\<close> or fall off the end
  of the method, which is Python's \<^verbatim>\<open>None\<close>.\<close>

definition known_mines :: "sentence \<Rightarrow> cell fset option" where
  "known_mines sen = (if count sen = int (fcard (cells sen)) then Some (cells sen) else None)"

definition known_safes :: "sentence \<Rightarrow> cell fset option" where
  "known_safes sen = (if count sen = 0 then Some (cells sen) else None)"

definition Sentence_mark_mine :: "sentence \<Rightarrow> cell \<Rightarrow> sentence" where
  "Sentence_mark_mine sen cell =
     (if cell |\<in>| cells sen
      then sen\<lparr>cells := cells sen |-| {|cell|}, count := count sen - 1\<rparr>
      else sen)"

definition Sentence_mark_safe :: "sentence \<Rightarrow> cell \<Rightarrow> sentence" where
  "Sentence_mark_safe sen cell =
     (if cell |\<in>| cells sen then sen\<lparr>cells := cells sen |-| {|cell|}\<rparr> else sen)"

text \<open>The truth value Python gives to the result of \<^verbatim>\<open>known_safes()\<close> or
  \<^verbatim>\<open>known_mines()\<close> in \<^verbatim>\<open>if known_safes:\<close>: \<^verbatim>\<open>None\<close> and the empty set are false.\<close>

fun truthy :: "cell fset option \<Rightarrow> bool" where
  "truthy None = False"
| "truthy (Some S) = (S \<noteq> {||})"

subsection \<open>class MinesweeperAI\<close>

record ai =
  height :: int
  width :: int
  moves_made :: "cell fset"
  mines :: "cell fset"
  safes :: "cell fset"
  knowledge :: "sentence list"

definition MinesweeperAI_init :: "int \<Rightarrow> int \<Rightarrow> ai" where
  "MinesweeperAI_init h w =
     \<lparr>height = h, width = w, moves_made = {||}, mines = {||}, safes = {||}, knowledge = []\<rparr>"

definition MinesweeperAI_mark_mine :: "ai \<Rightarrow> cell \<Rightarrow> ai" where
  "MinesweeperAI_mark_mine s cell =
     s\<lparr>mines := finsert cell (mines s),
       knowledge := map (\<lambda>sen. Sentence_mark_mine sen cell) (knowledge s)\<rparr>"

definition MinesweeperAI_mark_safe :: "ai \<Rightarrow> cell \<Rightarrow> ai" where
  "MinesweeperAI_mark_safe s cell =
     s\<lparr>safes := finsert cell (safes s),
       knowledge := map (\<lambda>sen. Sentence_mark_safe sen cell) (knowledge s)\<rparr>"

text \<open>\<^verbatim>\<open>range(cell[0] - 1, cell[0] + 2)\<close> is the interval \<open>[i - 1..i + 1]\<close>.\<close>

definition get_neighbors :: "ai \<Rightarrow> cell \<Rightarrow> cell fset" where
  "get_neighbors s cell =
     fset_of_list
       [(i, j). i \<leftarrow> [fst cell - 1..fst cell + 1], j \<leftarrow> [snd cell - 1..snd cell + 1],
                (i, j) \<noteq> cell, 0 \<le> i \<and> i < height s \<and> 0 \<le> j \<and> j < width s]"

subsection \<open>Exceptions and iteration over Python sets\<close>

text \<open>
  The only \<^verbatim>\<open>raise\<close> of the class is the \<^verbatim>\<open>Exception\<close> of step 5.3;
  \<^verbatim>\<open>list.remove\<close> raises \<^verbatim>\<open>ValueError\<close> when the element is absent, and so does
  \<^verbatim>\<open>random.randrange(n)\<close> for \<open>n \<le> 0\<close>. A method that raises leaves the object as
  mutated so far, so an outcome carries the state in both cases.
\<close>

datatype exn = Exception | ValueError

datatype outcome = Return ai | Raise exn ai

fun state_of :: "outcome \<Rightarrow> ai" where
  "state_of (Return s) = s"
| "state_of (Raise e s) = s"

fun raised :: "outcome \<Rightarrow> exn option" where
  "raised (Return s) = None"
| "raised (Raise e s) = Some e"

text \<open>
  Python iterates a \<^verbatim>\<open>set\<close> in an order the language leaves open. Where the source
  loops over a set of cells the result does not depend on the order, and the model gives
  the result directly (\<open>mark_safe_all\<close>, \<open>mark_mine_all\<close>, unions); the lemmas
  \<open>fold_Sentence_mark_safe\<close> and \<open>fold_Sentence_mark_mine\<close> below relate them to the
  loop run in any order. Where it loops over a set of \<^verbatim>\<open>Sentence\<close> objects
  (\<^verbatim>\<open>sentences_to_remove\<close>, \<^verbatim>\<open>sentences_to_add\<close>) the model keeps the list of
  the objects added, in the order of the \<^verbatim>\<open>add\<close> calls, and iterates over \<open>ord\<close> of that
  list, where \<open>ord\<close> is a parameter of \<open>add_knowledge\<close>: any function that lists every
  element once (\<open>set_order\<close>). \<^verbatim>\<open>Sentence.__eq__\<close> compares cells and count, which is
  equality of the records.
\<close>

definition set_order :: "('a list \<Rightarrow> 'a list) \<Rightarrow> bool" where
  "set_order ord = (\<forall>xs. distinct (ord xs) \<and> set (ord xs) = set xs)"

text \<open>\<^verbatim>\<open>for safe_cell in self.safes: new_sentence.mark_safe(safe_cell)\<close>\<close>

definition mark_safe_all :: "sentence \<Rightarrow> cell fset \<Rightarrow> sentence" where
  "mark_safe_all sen S = sen\<lparr>cells := cells sen |-| S\<rparr>"

text \<open>\<^verbatim>\<open>for mine in self.mines: new_sentence.mark_mine(mine)\<close>: every mine that is among
  the cells is removed and counted once.\<close>

definition mark_mine_all :: "sentence \<Rightarrow> cell fset \<Rightarrow> sentence" where
  "mark_mine_all sen M =
     sen\<lparr>cells := cells sen |-| M, count := count sen - int (fcard (cells sen |\<inter>| M))\<rparr>"

subsection \<open>add_knowledge\<close>

text \<open>Steps 1 and 2: the move is recorded, the cell is added to \<^verbatim>\<open>self.safes\<close> and
  removed from every sentence.\<close>

definition step2 :: "ai \<Rightarrow> cell \<Rightarrow> ai" where
  "step2 s cell =
     s\<lparr>moves_made := finsert cell (moves_made s),
       safes := finsert cell (safes s),
       knowledge := map (\<lambda>sen. Sentence_mark_safe sen cell) (knowledge s)\<rparr>"

text \<open>Step 3: the sentence of the neighbours, without the known safes and mines, is
  appended (3.5 has no condition).\<close>

definition new_sentence :: "ai \<Rightarrow> cell \<Rightarrow> int \<Rightarrow> sentence" where
  "new_sentence s cell n =
     mark_mine_all (mark_safe_all \<lparr>cells = get_neighbors s cell, count = n\<rparr> (safes s)) (mines s)"

definition step3 :: "ai \<Rightarrow> cell \<Rightarrow> int \<Rightarrow> ai" where
  "step3 s cell n = s\<lparr>knowledge := knowledge s @ [new_sentence s cell n]\<rparr>"

text \<open>Step 4.3: one scan of the knowledge, collecting \<^verbatim>\<open>inferred_safes\<close>,
  \<^verbatim>\<open>inferred_mines\<close> and the sentences added to \<^verbatim>\<open>sentences_to_remove\<close>.\<close>

fun infer :: "sentence list \<Rightarrow> cell fset \<times> cell fset \<times> sentence list
    \<Rightarrow> cell fset \<times> cell fset \<times> sentence list" where
  "infer [] acc = acc"
| "infer (sen # K) (inferred_safes, inferred_mines, to_remove) =
     (let (inferred_safes, to_remove) =
            (if truthy (known_safes sen)
             then (inferred_safes |\<union>| cells sen, to_remove @ [sen])
             else (inferred_safes, to_remove));
          (inferred_mines, to_remove) =
            (if truthy (known_mines sen)
             then (inferred_mines |\<union>| cells sen, to_remove @ [sen])
             else (inferred_mines, to_remove))
      in infer K (inferred_safes, inferred_mines, to_remove))"

text \<open>Step 4.5: \<^verbatim>\<open>self.knowledge.remove(sentence)\<close> deletes the first element equal to
  the sentence and raises \<^verbatim>\<open>ValueError\<close> when there is none.\<close>

fun remove_sentences :: "sentence list \<Rightarrow> sentence list \<Rightarrow> sentence list \<times> exn option" where
  "remove_sentences [] K = (K, None)"
| "remove_sentences (x # xs) K =
     (if x \<in> set K then remove_sentences xs (remove1 x K) else (K, Some ValueError))"

definition step4 :: "(sentence list \<Rightarrow> sentence list) \<Rightarrow> ai \<Rightarrow> ai \<times> exn option" where
  "step4 ord s =
     (let (inferred_safes, inferred_mines, to_remove) = infer (knowledge s) ({||}, {||}, []);
          s = s\<lparr>safes := safes s |\<union>| inferred_safes, mines := mines s |\<union>| inferred_mines\<rparr>;
          (K, e) = remove_sentences (ord to_remove) (knowledge s)
      in (s\<lparr>knowledge := K\<rparr>, e))"

text \<open>Step 5.2: the index pairs \<open>i < j\<close> in the order of the two loops, and the pair
  added to \<^verbatim>\<open>subsets\<close> for each: \<open>(i, j)\<close> when the cells of \<open>KB[i]\<close> are a subset of
  those of \<open>KB[j]\<close>, otherwise \<open>(j, i)\<close> when they are a superset.\<close>

definition index_pairs :: "nat \<Rightarrow> (nat \<times> nat) list" where
  "index_pairs n = [(i, j). i \<leftarrow> [0..<n], j \<leftarrow> [i + 1..<n]]"

definition pair_choice :: "sentence list \<Rightarrow> nat \<times> nat \<Rightarrow> (nat \<times> nat) list" where
  "pair_choice KB = (\<lambda>(i, j).
        if cells (KB ! i) |\<subseteq>| cells (KB ! j) then [(i, j)]
        else if cells (KB ! j) |\<subseteq>| cells (KB ! i) then [(j, i)]
        else [])"

definition subsets :: "sentence list \<Rightarrow> (nat \<times> nat) list" where
  "subsets KB = concat (map (pair_choice KB) (index_pairs (length KB)))"

text \<open>Step 5.3: the sentence of each pair, or the exception at the first negative
  count. Every exception of the loop is the same one, and it is raised before anything is
  appended.\<close>

fun derive :: "sentence list \<Rightarrow> (nat \<times> nat) list \<Rightarrow> exn + sentence list" where
  "derive KB [] = Inr []"
| "derive KB ((i, j) # ps) =
     (let new_cells = cells (KB ! j) |-| cells (KB ! i);
          new_count = count (KB ! j) - count (KB ! i)
      in if new_count < 0 then Inl Exception
         else (case derive KB ps of
                 Inl e \<Rightarrow> Inl e
               | Inr to_add \<Rightarrow> Inr (\<lparr>cells = new_cells, count = new_count\<rparr> # to_add)))"

definition step5 :: "(sentence list \<Rightarrow> sentence list) \<Rightarrow> ai \<Rightarrow> outcome" where
  "step5 ord s =
     (let KB = knowledge s in
      case derive KB (subsets KB) of
        Inl e \<Rightarrow> Raise e s
      | Inr to_add \<Rightarrow> Return (s\<lparr>knowledge := KB @ ord to_add\<rparr>))"

definition add_knowledge :: "(sentence list \<Rightarrow> sentence list) \<Rightarrow> ai \<Rightarrow> cell \<Rightarrow> int \<Rightarrow> outcome" where
  "add_knowledge ord s cell n =
     (case step4 ord (step3 (step2 s cell) cell n) of
        (s4, Some e) \<Rightarrow> Raise e s4
      | (s4, None) \<Rightarrow> step5 ord s4)"

subsection \<open>make_random_move\<close>

text \<open>
  The random source is an arbitrary sequence \<open>rnd\<close> of integers; the \<open>k\<close>-th call
  \<^verbatim>\<open>random.randrange(n)\<close> of a run returns \<open>rnd k mod n\<close>, a value of \<open>[0, n)\<close>, and
  raises \<^verbatim>\<open>ValueError\<close> for \<open>n \<le> 0\<close>. The loop is \<^verbatim>\<open>while True\<close>: a run that
  never leaves it is the value \<open>None\<close> of the outer option. Iteration \<open>k\<close> of the loop
  makes the calls \<open>2 * k\<close> and \<open>2 * k + 1\<close>.
\<close>

definition randrange :: "(nat \<Rightarrow> int) \<Rightarrow> nat \<Rightarrow> int \<Rightarrow> exn + int" where
  "randrange rnd k n = (if n \<le> 0 then Inl ValueError else Inr (rnd k mod n))"

partial_function (option) random_loop ::
    "ai \<Rightarrow> (nat \<Rightarrow> int) \<Rightarrow> nat \<Rightarrow> int \<Rightarrow> (exn + cell option) option" where
  "random_loop s rnd k moves_available =
     (case randrange rnd (2 * k) (height s) of
        Inl e \<Rightarrow> Some (Inl e)
      | Inr i \<Rightarrow>
         (case randrange rnd (2 * k + 1) (width s) of
            Inl e \<Rightarrow> Some (Inl e)
          | Inr j \<Rightarrow>
             if (i, j) |\<notin>| moves_made s \<and> (i, j) |\<notin>| mines s then Some (Inr (Some (i, j)))
             else if moves_available - 1 = 0 then Some (Inr None)
             else random_loop s rnd (k + 1) (moves_available - 1)))"

definition make_random_move :: "ai \<Rightarrow> (nat \<Rightarrow> int) \<Rightarrow> (exn + cell option) option" where
  "make_random_move s rnd = random_loop s rnd 0 (height s * width s)"

text \<open>The \<open>k\<close>-th cell the loop draws, on a board with positive height and width.\<close>

definition draw :: "ai \<Rightarrow> (nat \<Rightarrow> int) \<Rightarrow> nat \<Rightarrow> cell" where
  "draw s rnd k = (rnd (2 * k) mod height s, rnd (2 * k + 1) mod width s)"

definition candidate :: "ai \<Rightarrow> cell \<Rightarrow> bool" where
  "candidate s c = (c |\<notin>| moves_made s \<and> c |\<notin>| mines s)"

definition in_grid :: "ai \<Rightarrow> cell \<Rightarrow> bool" where
  "in_grid s c = (0 \<le> fst c \<and> fst c < height s \<and> 0 \<le> snd c \<and> snd c < width s)"

subsection \<open>Predicates of the statements\<close>

text \<open>The invariant of a constraint, \<open>0 \<le> count \<le> |cells|\<close>, and disjointness of the
  two fact sets.\<close>

definition count_in_range :: "sentence \<Rightarrow> bool" where
  "count_in_range sen = (0 \<le> count sen \<and> count sen \<le> int (fcard (cells sen)))"

definition disjoint_facts :: "ai \<Rightarrow> bool" where
  "disjoint_facts s = (safes s |\<inter>| mines s = {||})"

text \<open>No live sentence mentions a cell already known safe or known to be a mine.\<close>

definition facts_propagated :: "ai \<Rightarrow> bool" where
  "facts_propagated s =
     list_all (\<lambda>sen. cells sen |\<inter>| (safes s |\<union>| mines s) = {||}) (knowledge s)"

text \<open>
  A state agrees with a hidden layout \<open>B\<close> of mines when every known mine is in \<open>B\<close>, no
  known safe cell is, and every sentence counts the cells of \<open>B\<close> among its cells. An
  observation \<open>(cell, n)\<close> is truthful for \<open>B\<close> when the cell is not a mine and \<open>n\<close> is the
  number of its neighbours in \<open>B\<close>, which is what \<^verbatim>\<open>Minesweeper.nearby_mines\<close> reports
  for a cell that is not a mine (lemma \<open>truthful_game\<close>).
\<close>

definition sentence_holds :: "cell fset \<Rightarrow> sentence \<Rightarrow> bool" where
  "sentence_holds B sen = (count sen = int (fcard (cells sen |\<inter>| B)))"

definition agrees :: "cell fset \<Rightarrow> ai \<Rightarrow> bool" where
  "agrees B s =
     (mines s |\<subseteq>| B \<and> safes s |\<inter>| B = {||} \<and> list_all (sentence_holds B) (knowledge s))"

definition truthful :: "cell fset \<Rightarrow> ai \<Rightarrow> cell \<Rightarrow> int \<Rightarrow> bool" where
  "truthful B s cell n = (cell |\<notin>| B \<and> n = int (fcard (get_neighbors s cell |\<inter>| B)))"

subsection \<open>Names for the results of step 4.3\<close>

text \<open>A sentence is resolved when step 4.3 adds it to \<^verbatim>\<open>sentences_to_remove\<close>.\<close>

definition resolved :: "sentence \<Rightarrow> bool" where
  "resolved sen = (truthy (known_safes sen) \<or> truthy (known_mines sen))"

definition inferred_safes :: "sentence list \<Rightarrow> cell fset" where
  "inferred_safes K = fst (infer K ({||}, {||}, []))"

definition inferred_mines :: "sentence list \<Rightarrow> cell fset" where
  "inferred_mines K = fst (snd (infer K ({||}, {||}, [])))"

definition sentences_to_remove :: "sentence list \<Rightarrow> sentence list" where
  "sentences_to_remove K = snd (snd (infer K ({||}, {||}, [])))"

subsection \<open>Names for step 5\<close>

text \<open>The state in which step 5 starts, and the sentence step 5.3 builds from a pair
  of \<^verbatim>\<open>subsets\<close>.\<close>

definition before_step5 :: "(sentence list \<Rightarrow> sentence list) \<Rightarrow> ai \<Rightarrow> cell \<Rightarrow> int \<Rightarrow> ai" where
  "before_step5 ord s cell n = fst (step4 ord (step3 (step2 s cell) cell n))"

definition derived :: "sentence list \<Rightarrow> nat \<times> nat \<Rightarrow> sentence" where
  "derived KB p =
     \<lparr>cells = cells (KB ! snd p) |-| cells (KB ! fst p),
      count = count (KB ! snd p) - count (KB ! fst p)\<rparr>"

subsection \<open>A random source for the examples\<close>

text \<open>The source whose every draw is 0, so that every cell drawn is \<open>(0, 0)\<close>.\<close>

definition constant_draws :: "nat \<Rightarrow> int" where
  "constant_draws k = 0"

subsection \<open>class Minesweeper: the observations\<close>

text \<open>
  The game the engine plays against. \<^verbatim>\<open>nearby_mines\<close> reads \<^verbatim>\<open>self.board[i][j]\<close> only
  behind its bounds test, for \<open>(i, j)\<close> inside the board, so for this method the board
  is the finite set of the cells where it is \<^verbatim>\<open>True\<close>. It counts, with the loops of
  \<^verbatim>\<open>get_neighbors\<close>, the neighbours that are mines. (\<^verbatim>\<open>is_mine\<close> indexes the board
  without a bounds test and is not modelled.)
\<close>

record minesweeper =
  game_height :: int
  game_width :: int
  board :: "cell fset"

definition nearby_mines :: "minesweeper \<Rightarrow> cell \<Rightarrow> int" where
  "nearby_mines g cell =
     int (length
       [(i, j). i \<leftarrow> [fst cell - 1..fst cell + 1], j \<leftarrow> [snd cell - 1..snd cell + 1],
                (i, j) \<noteq> cell, 0 \<le> i \<and> i < game_height g \<and> 0 \<le> j \<and> j < game_width g,
                (i, j) |\<in>| board g])"

section \<open>Lemmas on the sentence operations\<close>

lemma Sentence_mark_safe_cells [simp]:
  "cells (Sentence_mark_safe sen c) = cells sen |-| {|c|}"
  by (auto simp: Sentence_mark_safe_def)

lemma Sentence_mark_safe_count [simp]:
  "count (Sentence_mark_safe sen c) = count sen"
  by (simp add: Sentence_mark_safe_def)

lemma Sentence_mark_mine_cells [simp]:
  "cells (Sentence_mark_mine sen c) = cells sen |-| {|c|}"
  by (auto simp: Sentence_mark_mine_def)

lemma Sentence_mark_mine_count:
  "count (Sentence_mark_mine sen c) = (if c |\<in>| cells sen then count sen - 1 else count sen)"
  by (simp add: Sentence_mark_mine_def)

lemma Sentence_mark_mine_absent: "c |\<notin>| cells sen \<Longrightarrow> Sentence_mark_mine sen c = sen"
  by (simp add: Sentence_mark_mine_def)

lemma Sentence_mark_safe_absent: "c |\<notin>| cells sen \<Longrightarrow> Sentence_mark_safe sen c = sen"
  by (simp add: Sentence_mark_safe_def)

lemma Sentence_mark_mine_twice:
  "Sentence_mark_mine (Sentence_mark_mine sen c) c = Sentence_mark_mine sen c"
  by (rule Sentence_mark_mine_absent) simp

lemma Sentence_mark_safe_twice:
  "Sentence_mark_safe (Sentence_mark_safe sen c) c = Sentence_mark_safe sen c"
  by (rule Sentence_mark_safe_absent) simp

lemma Sentence_mark_safe_eq:
  "Sentence_mark_safe sen c = sen\<lparr>cells := cells sen |-| {|c|}\<rparr>"
  by (simp add: Sentence_mark_safe_def)

lemma Sentence_mark_mine_eq:
  "Sentence_mark_mine sen c =
     sen\<lparr>cells := cells sen |-| {|c|},
         count := count sen - (if c |\<in>| cells sen then 1 else 0)\<rparr>"
  by (simp add: Sentence_mark_mine_def)

lemma fold_Sentence_mark_safe:
  "fold (\<lambda>c sen. Sentence_mark_safe sen c) xs sen = mark_safe_all sen (fset_of_list xs)"
proof (induction xs arbitrary: sen)
  case Nil
  show ?case by (simp add: mark_safe_all_def)
next
  case (Cons x xs)
  have "cells sen |-| {|x|} |-| fset_of_list xs = cells sen |-| finsert x (fset_of_list xs)"
    by auto
  moreover have "fold (\<lambda>c sen. Sentence_mark_safe sen c) (x # xs) sen =
      mark_safe_all (Sentence_mark_safe sen x) (fset_of_list xs)"
    by (simp add: Cons.IH)
  ultimately show ?case
    by (simp add: mark_safe_all_def Sentence_mark_safe_eq)
qed

lemma fold_Sentence_mark_mine:
  "distinct xs \<Longrightarrow>
   fold (\<lambda>c sen. Sentence_mark_mine sen c) xs sen = mark_mine_all sen (fset_of_list xs)"
proof (induction xs arbitrary: sen)
  case Nil
  show ?case by (simp add: mark_mine_all_def)
next
  case (Cons x xs)
  let ?M = "fset_of_list xs"
  from Cons.prems have x: "x |\<notin>| ?M" and d: "distinct xs"
    by (simp_all add: fset_of_list_elem)
  have c1: "cells sen |-| {|x|} |-| ?M = cells sen |-| finsert x ?M"
    by auto
  have c2: "(cells sen |-| {|x|}) |\<inter>| ?M = cells sen |\<inter>| ?M"
    using x by auto
  have step: "fold (\<lambda>c sen. Sentence_mark_mine sen c) (x # xs) sen =
      mark_mine_all (Sentence_mark_mine sen x) ?M"
    by (simp add: Cons.IH [OF d])
  have card: "int (fcard (cells sen |\<inter>| finsert x ?M)) =
      int (fcard (cells sen |\<inter>| ?M)) + (if x |\<in>| cells sen then 1 else 0)"
  proof (cases "x |\<in>| cells sen")
    case True
    then have "cells sen |\<inter>| finsert x ?M = finsert x (cells sen |\<inter>| ?M)"
      by auto
    moreover have "x |\<notin>| cells sen |\<inter>| ?M"
      using x by simp
    ultimately show ?thesis
      using True by (simp add: fcard_finsert_disjoint)
  next
    case False
    then have "cells sen |\<inter>| finsert x ?M = cells sen |\<inter>| ?M"
      by auto
    then show ?thesis
      using False by simp
  qed
  show ?case
    unfolding step
    by (simp add: mark_mine_all_def Sentence_mark_mine_eq c1 c2 card)
qed

section \<open>Lemmas on the steps of add_knowledge\<close>

lemma step2_simps [simp]:
  "height (step2 s c) = height s" "width (step2 s c) = width s"
  "moves_made (step2 s c) = finsert c (moves_made s)"
  "safes (step2 s c) = finsert c (safes s)" "mines (step2 s c) = mines s"
  "knowledge (step2 s c) = map (\<lambda>sen. Sentence_mark_safe sen c) (knowledge s)"
  by (simp_all add: step2_def)

lemma step3_simps [simp]:
  "height (step3 s c n) = height s" "width (step3 s c n) = width s"
  "moves_made (step3 s c n) = moves_made s"
  "safes (step3 s c n) = safes s" "mines (step3 s c n) = mines s"
  "knowledge (step3 s c n) = knowledge s @ [new_sentence s c n]"
  by (simp_all add: step3_def)

lemma truthy_known_safes: "truthy (known_safes sen) = (count sen = 0 \<and> cells sen \<noteq> {||})"
  by (simp add: known_safes_def)

lemma truthy_known_mines:
  "truthy (known_mines sen) = (count sen = int (fcard (cells sen)) \<and> cells sen \<noteq> {||})"
  by (simp add: known_mines_def)

lemma infer_safes:
  "c |\<in>| fst (infer K (A, B, R)) \<longleftrightarrow>
     c |\<in>| A \<or> (\<exists>sen \<in> set K. count sen = 0 \<and> c |\<in>| cells sen)"
proof (induction K arbitrary: A B R)
  case Nil
  show ?case by simp
next
  case (Cons sen K)
  show ?case
    by (auto simp: Cons.IH truthy_known_safes Let_def split: prod.splits)
qed

lemma infer_mines:
  "c |\<in>| fst (snd (infer K (A, B, R))) \<longleftrightarrow>
     c |\<in>| B \<or> (\<exists>sen \<in> set K. count sen = int (fcard (cells sen)) \<and> c |\<in>| cells sen)"
proof (induction K arbitrary: A B R)
  case Nil
  show ?case by simp
next
  case (Cons sen K)
  show ?case
    by (auto simp: Cons.IH truthy_known_mines Let_def split: prod.splits)
qed

lemma infer_to_remove:
  "set (snd (snd (infer K (A, B, R)))) = set R \<union> {sen \<in> set K. resolved sen}"
proof (induction K arbitrary: A B R)
  case Nil
  show ?case by simp
next
  case (Cons sen K)
  show ?case
    by (auto simp: Cons.IH resolved_def Let_def split: prod.splits)
qed

lemma remove_sentences_subset: "set (fst (remove_sentences xs K)) \<subseteq> set K"
proof (induction xs arbitrary: K)
  case Nil
  show ?case by simp
next
  case (Cons x xs)
  show ?case
    using Cons.IH [of "remove1 x K"] set_remove1_subset [of x K] by auto
qed


lemma subset_remove1:
  assumes "x \<notin> set xs" and "set xs \<subseteq> set K"
  shows "set xs \<subseteq> set (remove1 x K)"
proof
  fix y
  assume y: "y \<in> set xs"
  with assms have "y \<noteq> x" and "y \<in> set K" by auto
  then show "y \<in> set (remove1 x K)" by (simp add: in_set_remove1)
qed

lemma remove_sentences_no_error:
  "distinct xs \<Longrightarrow> set xs \<subseteq> set K \<Longrightarrow> snd (remove_sentences xs K) = None"
proof (induction xs arbitrary: K)
  case Nil
  show ?case by simp
next
  case (Cons x xs)
  from Cons.prems have "set xs \<subseteq> set (remove1 x K)"
    by (simp add: subset_remove1)
  with Cons.IH [of "remove1 x K"] Cons.prems show ?case by auto
qed

lemma remove_sentences_fold:
  "distinct xs \<Longrightarrow> set xs \<subseteq> set K \<Longrightarrow> fst (remove_sentences xs K) = fold remove1 xs K"
proof (induction xs arbitrary: K)
  case Nil
  show ?case by simp
next
  case (Cons x xs)
  from Cons.prems have "set xs \<subseteq> set (remove1 x K)"
    by (simp add: subset_remove1)
  with Cons.IH [of "remove1 x K"] Cons.prems show ?case by auto
qed

lemma step4_unfold:
  "step4 ord s =
     (s\<lparr>safes := safes s |\<union>| inferred_safes (knowledge s),
        mines := mines s |\<union>| inferred_mines (knowledge s),
        knowledge := fst (remove_sentences (ord (sentences_to_remove (knowledge s))) (knowledge s))\<rparr>,
      snd (remove_sentences (ord (sentences_to_remove (knowledge s))) (knowledge s)))"
  by (simp add: step4_def inferred_safes_def inferred_mines_def sentences_to_remove_def
      split: prod.splits)

lemma step4_simps [simp]:
  "height (fst (step4 ord s)) = height s" "width (fst (step4 ord s)) = width s"
  "moves_made (fst (step4 ord s)) = moves_made s"
  "safes (fst (step4 ord s)) = safes s |\<union>| inferred_safes (knowledge s)"
  "mines (fst (step4 ord s)) = mines s |\<union>| inferred_mines (knowledge s)"
  "knowledge (fst (step4 ord s)) =
     fst (remove_sentences (ord (sentences_to_remove (knowledge s))) (knowledge s))"
  by (simp_all add: step4_unfold)

lemma inferred_safes_iff:
  "c |\<in>| inferred_safes K \<longleftrightarrow> (\<exists>sen \<in> set K. count sen = 0 \<and> c |\<in>| cells sen)"
  by (simp add: inferred_safes_def infer_safes)

lemma inferred_mines_iff:
  "c |\<in>| inferred_mines K \<longleftrightarrow>
     (\<exists>sen \<in> set K. count sen = int (fcard (cells sen)) \<and> c |\<in>| cells sen)"
  by (simp add: inferred_mines_def infer_mines)

lemma set_sentences_to_remove:
  "set (sentences_to_remove K) = {sen \<in> set K. resolved sen}"
  by (simp add: sentences_to_remove_def infer_to_remove)

lemma step4_no_error: "set_order ord \<Longrightarrow> snd (step4 ord s) = None"
  by (simp add: step4_unfold set_order_def remove_sentences_no_error set_sentences_to_remove)

lemma step4_knowledge_subset: "set (knowledge (fst (step4 ord s))) \<subseteq> set (knowledge s)"
  by (simp add: remove_sentences_subset)


lemma step5_simps [simp]:
  "height (state_of (step5 ord s)) = height s" "width (state_of (step5 ord s)) = width s"
  "moves_made (state_of (step5 ord s)) = moves_made s"
  "safes (state_of (step5 ord s)) = safes s" "mines (state_of (step5 ord s)) = mines s"
  by (simp_all add: step5_def Let_def split: sum.splits)

lemma add_knowledge_state:
  "state_of (add_knowledge ord s c n) =
     (case snd (step4 ord (step3 (step2 s c) c n)) of
        Some e \<Rightarrow> fst (step4 ord (step3 (step2 s c) c n))
      | None \<Rightarrow> state_of (step5 ord (fst (step4 ord (step3 (step2 s c) c n)))))"
  by (simp add: add_knowledge_def split: prod.splits option.splits)

lemma add_knowledge_simps:
  "height (state_of (add_knowledge ord s c n)) = height s"
  "width (state_of (add_knowledge ord s c n)) = width s"
  "moves_made (state_of (add_knowledge ord s c n)) = finsert c (moves_made s)"
  "safes (state_of (add_knowledge ord s c n)) =
     finsert c (safes s) |\<union>| inferred_safes (knowledge (step3 (step2 s c) c n))"
  "mines (state_of (add_knowledge ord s c n)) =
     mines s |\<union>| inferred_mines (knowledge (step3 (step2 s c) c n))"
  by (simp_all add: add_knowledge_state split: option.splits)

lemma set_index_pairs: "(i, j) \<in> set (index_pairs n) \<longleftrightarrow> i < j \<and> j < n"
  by (force simp: index_pairs_def)

lemma subsets_iff:
  "(a, b) \<in> set (subsets KB) \<longleftrightarrow>
     a < length KB \<and> b < length KB \<and> cells (KB ! a) |\<subseteq>| cells (KB ! b) \<and>
     (a < b \<or> (b < a \<and> \<not> cells (KB ! b) |\<subseteq>| cells (KB ! a)))"
  (is "?L \<longleftrightarrow> ?R")
proof -
  have mem: "?L \<longleftrightarrow> (\<exists>p \<in> set (index_pairs (length KB)). (a, b) \<in> set (pair_choice KB p))"
    by (simp add: subsets_def)
  show ?thesis
  proof
    assume ?L
    then obtain i j where ij: "(i, j) \<in> set (index_pairs (length KB))"
      and m: "(a, b) \<in> set (pair_choice KB (i, j))"
      unfolding mem by auto
    from ij have "i < j" "j < length KB"
      by (simp_all add: set_index_pairs)
    with m show ?R
      by (auto simp: pair_choice_def split: if_splits)
  next
    assume r: ?R
    then consider "a < b" | "b < a" "\<not> cells (KB ! b) |\<subseteq>| cells (KB ! a)"
      by auto
    then show ?L
    proof cases
      case 1
      with r have "(a, b) \<in> set (index_pairs (length KB))"
        and "(a, b) \<in> set (pair_choice KB (a, b))"
        by (simp_all add: set_index_pairs pair_choice_def)
      then show ?thesis
        unfolding mem by blast
    next
      case 2
      with r have "(b, a) \<in> set (index_pairs (length KB))"
        and "(a, b) \<in> set (pair_choice KB (b, a))"
        by (simp_all add: set_index_pairs pair_choice_def)
      then show ?thesis
        unfolding mem by blast
    qed
  qed
qed

lemma derive_Inl:
  "derive KB ps = Inl e \<longleftrightarrow>
     e = Exception \<and> (\<exists>p \<in> set ps. count (KB ! snd p) - count (KB ! fst p) < 0)"
proof (induction ps)
  case Nil
  show ?case by simp
next
  case (Cons p ps)
  obtain i j where p: "p = (i, j)" by (cases p)
  show ?case
    using Cons.IH by (auto simp: p Let_def split: sum.splits)
qed

lemma derive_Inr:
  "derive KB ps = Inr xs \<longleftrightarrow>
     xs = map (derived KB) ps \<and> (\<forall>p \<in> set ps. 0 \<le> count (KB ! snd p) - count (KB ! fst p))"
proof (induction ps arbitrary: xs)
  case Nil
  show ?case by auto
next
  case (Cons p ps)
  obtain i j where p: "p = (i, j)" by (cases p)
  show ?case
    using Cons.IH by (auto simp: p Let_def derived_def split: sum.splits)
qed

lemma step5_raise:
  "(\<exists>p \<in> set (subsets (knowledge s)).
      count (knowledge s ! snd p) - count (knowledge s ! fst p) < 0) \<Longrightarrow>
   step5 ord s = Raise Exception s"
proof -
  assume neg: "\<exists>p \<in> set (subsets (knowledge s)).
      count (knowledge s ! snd p) - count (knowledge s ! fst p) < 0"
  then have "derive (knowledge s) (subsets (knowledge s)) = Inl Exception"
    by (simp add: derive_Inl)
  then show ?thesis
    by (simp add: step5_def)
qed


lemma step5_cases:
  "step5 ord s = Raise Exception s \<or>
   step5 ord s =
     Return (s\<lparr>knowledge := knowledge s @ ord (map (derived (knowledge s)) (subsets (knowledge s)))\<rparr>)"
  by (auto simp: step5_def Let_def derive_Inl derive_Inr split: sum.splits)

lemma add_knowledge_step5:
  "set_order ord \<Longrightarrow> add_knowledge ord s cell n = step5 ord (before_step5 ord s cell n)"
  using step4_no_error [of ord "step3 (step2 s cell) cell n"]
  by (cases "step4 ord (step3 (step2 s cell) cell n)") (simp add: add_knowledge_def before_step5_def)

lemma set_order_remdups: "set_order remdups"
  by (simp add: set_order_def)

section \<open>States that agree with a layout of mines\<close>

lemma fcard_split:
  "fcard (C |\<inter>| B) = fcard ((C |-| M) |\<inter>| B) + fcard (C |\<inter>| M)" if "M |\<subseteq>| B"
proof -
  have "C |\<inter>| B = ((C |-| M) |\<inter>| B) |\<union>| (C |\<inter>| M)"
    using that by auto
  moreover have "((C |-| M) |\<inter>| B) |\<inter>| (C |\<inter>| M) = {||}"
    by auto
  ultimately show ?thesis
    by (metis fcard_funion_disjoint)
qed

lemma fcard_inter_full: "fcard (A |\<inter>| B) = fcard A \<Longrightarrow> A |\<subseteq>| B"
proof -
  assume "fcard (A |\<inter>| B) = fcard A"
  then have "card (fset A \<inter> fset B) = card (fset A)"
    by (simp add: fcard.rep_eq)
  then have "fset A \<inter> fset B = fset A"
    by (intro card_subset_eq) auto
  then show ?thesis
    by (auto simp: less_eq_fset.rep_eq)
qed

lemma sentence_holds_mark_safe:
  "sentence_holds B sen \<Longrightarrow> c |\<notin>| B \<Longrightarrow> sentence_holds B (Sentence_mark_safe sen c)"
proof -
  assume h: "sentence_holds B sen" and c: "c |\<notin>| B"
  from c have "(cells sen |-| {|c|}) |\<inter>| B = cells sen |\<inter>| B"
    by auto
  with h show ?thesis
    by (simp add: sentence_holds_def)
qed

lemma get_neighbors_step2 [simp]: "get_neighbors (step2 s c) = get_neighbors s"
  by (rule ext) (simp add: get_neighbors_def cong: if_cong)

lemma sentence_holds_new_sentence:
  assumes "mines s |\<subseteq>| B" and "safes s |\<inter>| B = {||}"
    and "n = int (fcard (get_neighbors s c |\<inter>| B))"
  shows "sentence_holds B (new_sentence s c n)"
proof -
  let ?C = "get_neighbors s c |-| safes s"
  from assms(2) have "?C |\<inter>| B = get_neighbors s c |\<inter>| B"
    by auto
  with assms(3) have "n = int (fcard (?C |\<inter>| B))"
    by simp
  also have "\<dots> = int (fcard ((?C |-| mines s) |\<inter>| B)) + int (fcard (?C |\<inter>| mines s))"
    using fcard_split [OF assms(1), of ?C] by simp
  finally show ?thesis
    by (simp add: sentence_holds_def new_sentence_def mark_safe_all_def mark_mine_all_def)
qed

lemma inferred_safes_sound:
  assumes "list_all (sentence_holds B) K"
  shows "inferred_safes K |\<inter>| B = {||}"
proof -
  have "c |\<notin>| B" if "c |\<in>| inferred_safes K" for c
  proof -
    from that obtain sen where sen: "sen \<in> set K" "count sen = 0" "c |\<in>| cells sen"
      by (auto simp: inferred_safes_iff)
    with assms have "fcard (cells sen |\<inter>| B) = 0"
      by (auto simp: list_all_iff sentence_holds_def)
    then have "cells sen |\<inter>| B = {||}"
      by simp
    with sen(3) show ?thesis by auto
  qed
  then show ?thesis by auto
qed

lemma inferred_mines_sound:
  assumes "list_all (sentence_holds B) K"
  shows "inferred_mines K |\<subseteq>| B"
proof
  fix c
  assume "c |\<in>| inferred_mines K"
  then obtain sen where sen: "sen \<in> set K" "count sen = int (fcard (cells sen))" "c |\<in>| cells sen"
    by (auto simp: inferred_mines_iff)
  with assms have "fcard (cells sen |\<inter>| B) = fcard (cells sen)"
    by (auto simp: list_all_iff sentence_holds_def)
  then have "cells sen |\<subseteq>| B"
    by (rule fcard_inter_full)
  with sen(3) show "c |\<in>| B" by auto
qed

lemma sentence_holds_derived:
  assumes "sentence_holds B x" and "sentence_holds B y" and "cells x |\<subseteq>| cells y"
  shows "count y - count x = int (fcard ((cells y |-| cells x) |\<inter>| B))"
proof -
  have "cells y |\<inter>| B = ((cells y |-| cells x) |\<inter>| B) |\<union>| (cells x |\<inter>| B)"
    using assms(3) by auto
  moreover have "((cells y |-| cells x) |\<inter>| B) |\<inter>| (cells x |\<inter>| B) = {||}"
    by auto
  ultimately have "fcard (cells y |\<inter>| B) =
      fcard ((cells y |-| cells x) |\<inter>| B) + fcard (cells x |\<inter>| B)"
    by (metis fcard_funion_disjoint)
  with assms(1,2) show ?thesis
    by (simp add: sentence_holds_def)
qed

lemma agrees_before_step5:
  assumes "agrees B s" and "truthful B s cell n"
  shows "agrees B (before_step5 ord s cell n)"
proof -
  let ?s3 = "step3 (step2 s cell) cell n"
  from assms have m: "mines s |\<subseteq>| B" and sf: "finsert cell (safes s) |\<inter>| B = {||}"
    and K: "list_all (sentence_holds B) (knowledge s)"
    and n: "n = int (fcard (get_neighbors s cell |\<inter>| B))" and c: "cell |\<notin>| B"
    by (auto simp: agrees_def truthful_def)
  have new: "sentence_holds B (new_sentence (step2 s cell) cell n)"
    by (rule sentence_holds_new_sentence) (use m sf n in simp_all)
  have K3: "list_all (sentence_holds B) (knowledge ?s3)"
    using K new c by (simp add: list_all_iff sentence_holds_mark_safe)
  have K4: "list_all (sentence_holds B) (knowledge (fst (step4 ord ?s3)))"
    using K3 step4_knowledge_subset [of ord ?s3] unfolding list_all_iff by blast
  have "inferred_safes (knowledge ?s3) |\<inter>| B = {||}"
    using K3 by (rule inferred_safes_sound)
  with sf have s4: "safes (fst (step4 ord ?s3)) |\<inter>| B = {||}"
    by (simp add: inf_sup_distrib2)
  have "inferred_mines (knowledge ?s3) |\<subseteq>| B"
    using K3 by (rule inferred_mines_sound)
  with m have m4: "mines (fst (step4 ord ?s3)) |\<subseteq>| B"
    by simp
  show ?thesis
    unfolding before_step5_def agrees_def using K4 s4 m4 by simp
qed

lemma agrees_step5:
  assumes "agrees B s" and "set_order ord"
  shows "raised (step5 ord s) = None \<and> agrees B (state_of (step5 ord s))"
proof -
  let ?KB = "knowledge s"
  from assms(1) have K: "\<And>x. x \<in> set ?KB \<Longrightarrow> sentence_holds B x"
    by (simp add: agrees_def list_all_iff)
  have pair: "sentence_holds B (derived ?KB p) \<and> 0 \<le> count (?KB ! snd p) - count (?KB ! fst p)"
    if "p \<in> set (subsets ?KB)" for p
  proof -
    obtain a b where p: "p = (a, b)" by (cases p)
    from that have ab: "a < length ?KB" "b < length ?KB" "cells (?KB ! a) |\<subseteq>| cells (?KB ! b)"
      by (simp_all add: p subsets_iff)
    from sentence_holds_derived [OF K K ab(3)] ab(1,2)
    have "count (?KB ! b) - count (?KB ! a) =
        int (fcard ((cells (?KB ! b) |-| cells (?KB ! a)) |\<inter>| B))"
      by simp
    then show ?thesis
      by (simp add: p derived_def sentence_holds_def)
  qed
  then have "\<not> (\<exists>p \<in> set (subsets ?KB). count (?KB ! snd p) - count (?KB ! fst p) < 0)"
    by force
  then have "derive ?KB (subsets ?KB) \<noteq> Inl Exception"
    by (simp add: derive_Inl)
  with step5_cases [of ord s]
  have ret: "step5 ord s =
      Return (s\<lparr>knowledge := ?KB @ ord (map (derived ?KB) (subsets ?KB))\<rparr>)"
    by (auto simp: step5_def Let_def split: sum.splits)
  have "sentence_holds B x" if "x \<in> set (ord (map (derived ?KB) (subsets ?KB)))" for x
  proof -
    from that assms(2) have "x \<in> set (map (derived ?KB) (subsets ?KB))"
      by (simp add: set_order_def)
    with pair show ?thesis by auto
  qed
  with K assms(1) show ?thesis
    unfolding ret by (auto simp: agrees_def list_all_iff)
qed

lemma agrees_add_knowledge:
  assumes "set_order ord" and "agrees B s" and "truthful B s cell n"
  shows "raised (add_knowledge ord s cell n) = None \<and>
         agrees B (state_of (add_knowledge ord s cell n))"
  unfolding add_knowledge_step5 [OF assms(1)]
  using agrees_step5 [OF agrees_before_step5 [OF assms(2,3)] assms(1)] .

lemma agrees_init: "agrees B (MinesweeperAI_init h w)"
  by (simp add: agrees_def MinesweeperAI_init_def)

lemma agrees_disjoint: "agrees B s \<Longrightarrow> disjoint_facts s"
  by (auto simp: agrees_def disjoint_facts_def)

lemma sentence_holds_in_range: "sentence_holds B sen \<Longrightarrow> count_in_range sen"
proof -
  assume "sentence_holds B sen"
  moreover have "fcard (cells sen |\<inter>| B) \<le> fcard (cells sen)"
    by (simp add: fcard_mono)
  ultimately show ?thesis
    by (simp add: sentence_holds_def count_in_range_def)
qed

lemma count_in_range_mark_mine:
  assumes "count_in_range sen" and "cell |\<in>| cells sen \<longrightarrow> 1 \<le> count sen"
  shows "count_in_range (Sentence_mark_mine sen cell)"
proof (cases "cell |\<in>| cells sen")
  case True
  then have "Suc (fcard (cells sen |-| {|cell|})) = fcard (cells sen)"
    by (rule fcard_Suc_fminus1)
  then have "int (fcard (cells sen)) = int (fcard (cells sen |-| {|cell|})) + 1"
    by simp
  moreover have "count (Sentence_mark_mine sen cell) = count sen - 1"
    using True by (simp add: Sentence_mark_mine_count)
  moreover from assms True have "1 \<le> count sen" "count sen \<le> int (fcard (cells sen))"
    by (simp_all add: count_in_range_def)
  ultimately show ?thesis
    unfolding count_in_range_def Sentence_mark_mine_cells by linarith
next
  case False
  with assms show ?thesis
    by (simp add: Sentence_mark_mine_absent)
qed

lemma agrees_in_range: "agrees B t \<Longrightarrow> list_all count_in_range (knowledge t)"
  by (auto simp: agrees_def list_all_iff dest: sentence_holds_in_range)

section \<open>What a call keeps in the knowledge\<close>






lemma raised_add_knowledge:
  assumes "set_order ord"
  shows "raised (add_knowledge ord s cell n) =
    (if \<exists>p \<in> set (subsets (knowledge (before_step5 ord s cell n))).
          count (knowledge (before_step5 ord s cell n) ! snd p)
            - count (knowledge (before_step5 ord s cell n) ! fst p) < 0
     then Some Exception else None)"
proof -
  let ?s4 = "before_step5 ord s cell n"
  show ?thesis
  proof (cases "\<exists>p \<in> set (subsets (knowledge ?s4)).
          count (knowledge ?s4 ! snd p) - count (knowledge ?s4 ! fst p) < 0")
    case True
    then have "step5 ord ?s4 = Raise Exception ?s4"
      by (rule step5_raise)
    with True show ?thesis
      unfolding add_knowledge_step5 [OF assms] by simp
  next
    case False
    then have "derive (knowledge ?s4) (subsets (knowledge ?s4)) \<noteq> Inl Exception"
      by (simp add: derive_Inl)
    then have "raised (step5 ord ?s4) = None"
      by (auto simp: step5_def Let_def derive_Inl split: sum.splits)
    with False show ?thesis
      unfolding add_knowledge_step5 [OF assms] by simp
  qed
qed

section \<open>Lemmas on the next call and on make_random_move\<close>


lemma random_loop_step:
  assumes "0 < height s" and "0 < width s"
  shows "random_loop s rnd k m =
    (if candidate s (draw s rnd k) then Some (Inr (Some (draw s rnd k)))
     else if m - 1 = 0 then Some (Inr None)
     else random_loop s rnd (Suc k) (m - 1))"
  using assms
  by (subst random_loop.simps) (simp add: randrange_def candidate_def draw_def)

lemma random_loop_find:
  assumes "0 < height s" and "0 < width s"
  shows "random_loop s rnd k (int (Suc m)) =
    Some (Inr (List.find (candidate s) (map (draw s rnd) [k..<k + Suc m])))"
proof (induction m arbitrary: k)
  case 0
  show ?case
    by (subst random_loop_step [OF assms]) simp
next
  case (Suc m)
  have list: "[k..<k + Suc (Suc m)] = k # [Suc k..<Suc k + Suc m]"
    by (simp add: upt_conv_Cons)
  have e: "int (Suc (Suc m)) - 1 = int (Suc m)" "int (Suc m) \<noteq> 0"
    by simp_all
  show ?case
  proof (cases "candidate s (draw s rnd k)")
    case True
    have "random_loop s rnd k (int (Suc (Suc m))) = Some (Inr (Some (draw s rnd k)))"
      by (subst random_loop_step [OF assms]) (simp only: True if_True)
    with True show ?thesis
      unfolding list by (simp only: list.map find.simps if_True)
  next
    case False
    have "random_loop s rnd k (int (Suc (Suc m))) = random_loop s rnd (Suc k) (int (Suc m))"
      by (subst random_loop_step [OF assms]) (simp only: False e if_False)
    with False show ?thesis
      unfolding list by (simp only: list.map find.simps if_False Suc.IH)
  qed
qed

lemma make_random_move_find:
  assumes "0 < height s" and "0 < width s"
  shows "make_random_move s rnd =
    Some (Inr (List.find (candidate s) (map (draw s rnd) [0..<nat (height s * width s)])))"
proof -
  from assms have "0 < height s * width s"
    by simp
  then obtain m where m: "height s * width s = int (Suc m)"
    by (metis Suc_pred' nat_0_less_mult_iff of_nat_0_less_iff pos_int_cases zero_less_imp_eq_int)
  then have "nat (height s * width s) = 0 + Suc m"
    by simp
  then show ?thesis
    unfolding make_random_move_def m
    by (simp only: random_loop_find [OF assms])
qed

lemma in_grid_draw: "0 < height s \<Longrightarrow> 0 < width s \<Longrightarrow> in_grid s (draw s rnd k)"
  by (simp add: in_grid_def draw_def)

lemma make_random_move_error:
  "height s \<le> 0 \<or> width s \<le> 0 \<Longrightarrow> make_random_move s rnd = Some (Inl ValueError)"
  unfolding make_random_move_def
  by (subst random_loop.simps) (auto simp: randrange_def)

section \<open>The observations of the game are truthful\<close>

lemma row_filter:
  "concat (map (\<lambda>j. if P (i, j) then [(i, j)] else []) ys) = filter P (map (Pair i) ys)"
  by (induction ys) auto

lemma grid_filter:
  "concat (map (\<lambda>i. concat (map (\<lambda>j. if P (i, j) then [(i, j)] else []) ys)) xs) =
     filter P (List.product xs ys)"
  by (induction xs) (simp_all add: row_filter)

lemma neighbors_list:
  "[(i, j). i \<leftarrow> xs, j \<leftarrow> ys, (i, j) \<noteq> cell, Q i j] =
     filter (\<lambda>p. p \<noteq> cell \<and> Q (fst p) (snd p)) (List.product xs ys)"
proof -
  have "[(i, j). i \<leftarrow> xs, j \<leftarrow> ys, (i, j) \<noteq> cell, Q i j] =
      concat (map (\<lambda>i. concat (map (\<lambda>j. if (i, j) \<noteq> cell \<and> Q (fst (i, j)) (snd (i, j))
        then [(i, j)] else []) ys)) xs)"
    by (simp add: if_if_eq_conj del: split_paired_All cong: if_cong)
  also have "\<dots> = filter (\<lambda>p. p \<noteq> cell \<and> Q (fst p) (snd p)) (List.product xs ys)"
    by (rule grid_filter)
  finally show ?thesis .
qed

lemma mines_list:
  "[(i, j). i \<leftarrow> xs, j \<leftarrow> ys, (i, j) \<noteq> cell, Q i j, (i, j) |\<in>| B] =
     filter (\<lambda>p. p |\<in>| B) (filter (\<lambda>p. p \<noteq> cell \<and> Q (fst p) (snd p)) (List.product xs ys))"
proof -
  have "[(i, j). i \<leftarrow> xs, j \<leftarrow> ys, (i, j) \<noteq> cell, Q i j, (i, j) |\<in>| B] =
      concat (map (\<lambda>i. concat (map (\<lambda>j. if ((i, j) \<noteq> cell \<and> Q (fst (i, j)) (snd (i, j)))
          \<and> (i, j) |\<in>| B
        then [(i, j)] else []) ys)) xs)"
    by (simp add: if_if_eq_conj del: split_paired_All cong: if_cong)
  also have "\<dots> = filter (\<lambda>p. (p \<noteq> cell \<and> Q (fst p) (snd p)) \<and> p |\<in>| B) (List.product xs ys)"
    by (rule grid_filter)
  finally show ?thesis
    by (simp add: conj_commute)
qed

lemma nearby_mines_neighbors:
  assumes "game_height g = height s" and "game_width g = width s"
  shows "nearby_mines g cell = int (fcard (get_neighbors s cell |\<inter>| board g))"
proof -
  let ?L = "filter (\<lambda>p. p \<noteq> cell \<and> (0 \<le> fst p \<and> fst p < height s \<and> 0 \<le> snd p \<and> snd p < width s))
      (List.product [fst cell - 1..fst cell + 1] [snd cell - 1..snd cell + 1])"
  have d: "distinct ?L"
    by (simp add: distinct_product)
  have n: "get_neighbors s cell = fset_of_list ?L"
    unfolding get_neighbors_def
    by (subst neighbors_list [where Q = "\<lambda>i j. 0 \<le> i \<and> i < height s \<and> 0 \<le> j \<and> j < width s"]) simp
  have m: "nearby_mines g cell = int (length (filter (\<lambda>p. p |\<in>| board g) ?L))"
    unfolding nearby_mines_def assms
    by (subst mines_list [where Q = "\<lambda>i j. 0 \<le> i \<and> i < height s \<and> 0 \<le> j \<and> j < width s"]) simp
  have "length (filter (\<lambda>p. p |\<in>| board g) ?L) = card ({p. p |\<in>| board g} \<inter> set ?L)"
    using d by (rule distinct_length_filter)
  also have "{p. p |\<in>| board g} \<inter> set ?L = fset (fset_of_list ?L |\<inter>| board g)"
    by (auto simp: fset_of_list.rep_eq)
  finally show ?thesis
    unfolding m n by (simp add: fcard.rep_eq)
qed

lemma truthful_game:
  assumes "game_height g = height s" and "game_width g = width s" and "cell |\<notin>| board g"
  shows "truthful (board g) s cell (nearby_mines g cell)"
  using assms nearby_mines_neighbors [of g s cell] by (simp add: truthful_def)

section \<open>The claims\<close>

text \<open>
  C10. The mark operations of the engine are idempotent: calling
  \<^verbatim>\<open>MinesweeperAI.mark_mine(cell)\<close> (respectively \<^verbatim>\<open>mark_safe(cell)\<close>) twice in a row
  yields exactly the state of calling it once; the second call decrements no count and
  changes neither \<^verbatim>\<open>safes\<close>, \<^verbatim>\<open>mines\<close> nor any sentence.
\<close>

theorem mark_idempotent:
  "MinesweeperAI_mark_mine (MinesweeperAI_mark_mine s c) c = MinesweeperAI_mark_mine s c \<and>
   MinesweeperAI_mark_safe (MinesweeperAI_mark_safe s c) c = MinesweeperAI_mark_safe s c"
  by (simp add: MinesweeperAI_mark_mine_def MinesweeperAI_mark_safe_def
      Sentence_mark_mine_twice Sentence_mark_safe_twice comp_def)

text \<open>
  C9. The sets \<^verbatim>\<open>safes\<close>, \<^verbatim>\<open>mines\<close> and \<^verbatim>\<open>moves_made\<close> only grow: each of them
  before a call of \<^verbatim>\<open>add_knowledge\<close> is a subset of the one after the call, whether
  the call returns or raises and whatever the order in which the sets of sentences are
  iterated; the same holds for \<^verbatim>\<open>mark_safe\<close> and \<^verbatim>\<open>mark_mine\<close>.
\<close>

theorem facts_monotone:
  "moves_made s |\<subseteq>| moves_made (state_of (add_knowledge ord s cell n)) \<and>
   safes s |\<subseteq>| safes (state_of (add_knowledge ord s cell n)) \<and>
   mines s |\<subseteq>| mines (state_of (add_knowledge ord s cell n)) \<and>
   moves_made s |\<subseteq>| moves_made (MinesweeperAI_mark_safe s cell) \<and>
   safes s |\<subseteq>| safes (MinesweeperAI_mark_safe s cell) \<and>
   mines s |\<subseteq>| mines (MinesweeperAI_mark_safe s cell) \<and>
   moves_made s |\<subseteq>| moves_made (MinesweeperAI_mark_mine s cell) \<and>
   safes s |\<subseteq>| safes (MinesweeperAI_mark_mine s cell) \<and>
   mines s |\<subseteq>| mines (MinesweeperAI_mark_mine s cell)"
  by (auto simp: add_knowledge_simps MinesweeperAI_mark_safe_def MinesweeperAI_mark_mine_def)




text \<open>
  C4. As stated (\<^verbatim>\<open>safes\<close> and \<^verbatim>\<open>mines\<close> are disjoint after every public operation,
  and marking a known safe cell as a mine fails with an error) the claim does not hold:
  the class has no such check, and \<^verbatim>\<open>mark_safe\<close> followed by \<^verbatim>\<open>mark_mine\<close> on one
  cell leaves the cell in both sets.
\<close>

theorem disjoint_counterexample:
  "\<not> disjoint_facts
       (MinesweeperAI_mark_mine (MinesweeperAI_mark_safe (MinesweeperAI_init 8 8) (0, 0)) (0, 0))"
  by (simp add: disjoint_facts_def MinesweeperAI_mark_mine_def MinesweeperAI_mark_safe_def
      MinesweeperAI_init_def)

text \<open>
  C4, amended. The two sets are disjoint in the initial state, and they stay disjoint
  under \<^verbatim>\<open>add_knowledge\<close> whenever the state agrees with a hidden layout of mines and
  the observation is truthful for it: the call then raises nothing and the new state
  agrees with the layout again. \<^verbatim>\<open>mark_mine(cell)\<close> keeps them disjoint when the cell
  is not known safe, \<^verbatim>\<open>mark_safe(cell)\<close> when it is not a known mine.
\<close>

theorem disjoint_if_truthful:
  "(set_order ord \<and> agrees B s \<and> truthful B s cell n \<longrightarrow>
      raised (add_knowledge ord s cell n) = None \<and>
      agrees B (state_of (add_knowledge ord s cell n)) \<and>
      disjoint_facts (state_of (add_knowledge ord s cell n))) \<and>
   (disjoint_facts s \<and> cell |\<notin>| safes s \<longrightarrow> disjoint_facts (MinesweeperAI_mark_mine s cell)) \<and>
   (disjoint_facts s \<and> cell |\<notin>| mines s \<longrightarrow> disjoint_facts (MinesweeperAI_mark_safe s cell)) \<and>
   agrees B (MinesweeperAI_init h w) \<and> disjoint_facts (MinesweeperAI_init h w)"
proof -
  have "disjoint_facts (MinesweeperAI_mark_mine s cell)"
    if "disjoint_facts s" "cell |\<notin>| safes s"
    using that by (auto simp: disjoint_facts_def MinesweeperAI_mark_mine_def)
  moreover have "disjoint_facts (MinesweeperAI_mark_safe s cell)"
    if "disjoint_facts s" "cell |\<notin>| mines s"
    using that by (auto simp: disjoint_facts_def MinesweeperAI_mark_safe_def)
  moreover have "disjoint_facts (MinesweeperAI_init h w)"
    by (simp add: disjoint_facts_def MinesweeperAI_init_def)
  ultimately show ?thesis
    using agrees_add_knowledge [of ord B s cell n] agrees_init [of B h w]
    by (auto dest: agrees_disjoint)
qed

theorem disjoint_if_truthful_witness:
  "set_order (remdups :: sentence list \<Rightarrow> sentence list) \<and>
   state_of (add_knowledge remdups
      (state_of (add_knowledge remdups (MinesweeperAI_init 1 6) (0, 1) 1)) (0, 3) 0) =
     \<lparr>height = 1, width = 6, moves_made = {|(0, 3), (0, 1)|}, mines = {||},
       safes = {|(0, 1), (0, 3), (0, 2), (0, 4)|},
       knowledge = [\<lparr>cells = {|(0, 0), (0, 2)|}, count = 1\<rparr>]\<rparr> \<and>
   agrees {|(0, 0)|}
     \<lparr>height = 1, width = 6, moves_made = {|(0, 3), (0, 1)|}, mines = {||},
       safes = {|(0, 1), (0, 3), (0, 2), (0, 4)|},
       knowledge = [\<lparr>cells = {|(0, 0), (0, 2)|}, count = 1\<rparr>]\<rparr> \<and>
   truthful {|(0, 0)|}
     \<lparr>height = 1, width = 6, moves_made = {|(0, 3), (0, 1)|}, mines = {||},
       safes = {|(0, 1), (0, 3), (0, 2), (0, 4)|},
       knowledge = [\<lparr>cells = {|(0, 0), (0, 2)|}, count = 1\<rparr>]\<rparr> (0, 2) 0 \<and>
   add_knowledge remdups
     \<lparr>height = 1, width = 6, moves_made = {|(0, 3), (0, 1)|}, mines = {||},
       safes = {|(0, 1), (0, 3), (0, 2), (0, 4)|},
       knowledge = [\<lparr>cells = {|(0, 0), (0, 2)|}, count = 1\<rparr>]\<rparr> (0, 2) 0 =
     Return \<lparr>height = 1, width = 6, moves_made = {|(0, 2), (0, 3), (0, 1)|},
       mines = {|(0, 0)|}, safes = {|(0, 1), (0, 3), (0, 2), (0, 4)|},
       knowledge = [\<lparr>cells = {||}, count = 0\<rparr>]\<rparr> \<and>
   disjoint_facts
     \<lparr>height = 1, width = 6, moves_made = {|(0, 2), (0, 3), (0, 1)|},
       mines = {|(0, 0)|}, safes = {|(0, 1), (0, 3), (0, 2), (0, 4)|},
       knowledge = [\<lparr>cells = {||}, count = 0\<rparr>]\<rparr> \<and>
   disjoint_facts (MinesweeperAI_mark_mine
     \<lparr>height = 1, width = 6, moves_made = {|(0, 2), (0, 3), (0, 1)|},
       mines = {|(0, 0)|}, safes = {|(0, 1), (0, 3), (0, 2), (0, 4)|},
       knowledge = [\<lparr>cells = {||}, count = 0\<rparr>]\<rparr> (0, 5)) \<and>
   disjoint_facts (MinesweeperAI_mark_safe
     \<lparr>height = 1, width = 6, moves_made = {|(0, 2), (0, 3), (0, 1)|},
       mines = {|(0, 0)|}, safes = {|(0, 1), (0, 3), (0, 2), (0, 4)|},
       knowledge = [\<lparr>cells = {||}, count = 0\<rparr>]\<rparr> (0, 5))"
proof -
  let ?s2 = "\<lparr>height = 1, width = 6, moves_made = {|(0, 3), (0, 1)|}, mines = {||},
       safes = {|(0, 1), (0, 3), (0, 2), (0, 4)|},
       knowledge = [\<lparr>cells = {|(0, 0), (0, 2)|}, count = 1\<rparr>]\<rparr>"
  let ?s3 = "\<lparr>height = 1, width = 6, moves_made = {|(0, 2), (0, 3), (0, 1)|},
       mines = {|(0, 0)|}, safes = {|(0, 1), (0, 3), (0, 2), (0, 4)|},
       knowledge = [\<lparr>cells = {||}, count = 0\<rparr>]\<rparr>"
  have so: "set_order (remdups :: sentence list \<Rightarrow> sentence list)"
    by (rule set_order_remdups)
  have reach: "state_of (add_knowledge remdups
      (state_of (add_knowledge remdups (MinesweeperAI_init 1 6) (0, 1) 1)) (0, 3) 0) = ?s2"
    by code_simp
  have ag: "agrees {|(0, 0)|} ?s2"
    by code_simp
  have tr: "truthful {|(0, 0)|} ?s2 (0, 2) 0"
    by code_simp
  have call: "add_knowledge remdups ?s2 (0, 2) 0 = Return ?s3"
    by code_simp
  have st: "state_of (add_knowledge remdups ?s2 (0, 2) 0) = ?s3"
    unfolding call by simp
  from disjoint_if_truthful [where ord = remdups and B = "{|(0, 0)|}" and s = ?s2
      and cell = "(0, 2)" and n = 0] so ag tr
  have d3: "disjoint_facts ?s3"
    unfolding st by blast
  have n: "(0, 5) |\<notin>| safes ?s3" "(0, 5) |\<notin>| mines ?s3"
    by simp_all
  from disjoint_if_truthful [where s = ?s3 and cell = "(0, 5)"] d3 n
  have m: "disjoint_facts (MinesweeperAI_mark_mine ?s3 (0, 5))"
    and sf: "disjoint_facts (MinesweeperAI_mark_safe ?s3 (0, 5))"
    by blast+
  from so reach ag tr call d3 m sf show ?thesis
    by blast
qed

text \<open>
  C5. As stated (\<open>0 \<le> count \<le> |cells|\<close> at every observable point, and an error
  instead of a count below zero) the claim does not hold: \<^verbatim>\<open>Sentence.mark_mine\<close> on a
  sentence of count 0 that contains the cell returns count \<open>-1\<close>, and an observation
  of 9 on the centre of a 3 by 3 board leaves a sentence of 8 cells and count 9.
\<close>

theorem count_range_counterexample:
  "\<not> count_in_range (Sentence_mark_mine \<lparr>cells = {|(0, 0)|}, count = 0\<rparr> (0, 0)) \<and>
   \<not> list_all count_in_range
       (knowledge (state_of (add_knowledge remdups (MinesweeperAI_init 3 3) (1, 1) 9)))"
  by code_simp

text \<open>
  C5, amended. \<^verbatim>\<open>Sentence.mark_mine\<close> keeps \<open>0 \<le> count \<le> |cells|\<close> when the count
  is at least 1 or the cell is not among the cells; on a sentence of count 0 that
  contains the cell it raises nothing and returns count \<open>-1\<close>. Every sentence of the
  knowledge satisfies \<open>0 \<le> count \<le> |cells|\<close> after a call of \<^verbatim>\<open>add_knowledge\<close> made
  in a state that agrees with a hidden layout of mines, with a truthful observation.
\<close>

theorem count_range_if_truthful:
  "(count_in_range sen \<and> (cell |\<in>| cells sen \<longrightarrow> 1 \<le> count sen) \<longrightarrow>
      count_in_range (Sentence_mark_mine sen cell)) \<and>
   (cell |\<in>| cells sen \<and> count sen = 0 \<longrightarrow> count (Sentence_mark_mine sen cell) = - 1) \<and>
   (set_order ord \<and> agrees B s \<and> truthful B s cell n \<longrightarrow>
      raised (add_knowledge ord s cell n) = None \<and>
      list_all count_in_range (knowledge (state_of (add_knowledge ord s cell n))))"
proof (intro conjI impI)
  assume "count_in_range sen \<and> (cell |\<in>| cells sen \<longrightarrow> 1 \<le> count sen)"
  then show "count_in_range (Sentence_mark_mine sen cell)"
    using count_in_range_mark_mine [of sen cell] by blast
next
  assume "cell |\<in>| cells sen \<and> count sen = 0"
  then show "count (Sentence_mark_mine sen cell) = - 1"
    by (simp add: Sentence_mark_mine_count)
next
  assume a: "set_order ord \<and> agrees B s \<and> truthful B s cell n"
  then show "raised (add_knowledge ord s cell n) = None"
    using agrees_add_knowledge [of ord B s cell n] by blast
  from a have "agrees B (state_of (add_knowledge ord s cell n))"
    using agrees_add_knowledge [of ord B s cell n] by blast
  then show "list_all count_in_range (knowledge (state_of (add_knowledge ord s cell n)))"
    by (rule agrees_in_range)
qed

theorem count_range_if_truthful_witness:
  "count_in_range \<lparr>cells = {|(0, 0), (0, 1)|}, count = 1\<rparr> \<and>
   count_in_range (Sentence_mark_mine \<lparr>cells = {|(0, 0), (0, 1)|}, count = 1\<rparr> (0, 0)) \<and>
   count (Sentence_mark_mine \<lparr>cells = {|(0, 0)|}, count = 0\<rparr> (0, 0)) = - 1 \<and>
   set_order (remdups :: sentence list \<Rightarrow> sentence list) \<and>
   agrees {|(0, 0)|} (MinesweeperAI_init 1 4) \<and>
   truthful {|(0, 0)|} (MinesweeperAI_init 1 4) (0, 1) 1 \<and>
   list_all count_in_range
     (knowledge (state_of (add_knowledge remdups (MinesweeperAI_init 1 4) (0, 1) 1)))"
proof -
  let ?sen = "\<lparr>cells = {|(0, 0), (0, 1)|}, count = 1\<rparr>"
  let ?zero = "\<lparr>cells = {|(0, 0)|}, count = 0\<rparr>"
  let ?s = "MinesweeperAI_init 1 4"
  have so: "set_order (remdups :: sentence list \<Rightarrow> sentence list)"
    by (rule set_order_remdups)
  have ag: "agrees {|(0, 0)|} ?s"
    by (rule agrees_init)
  have tr: "truthful {|(0, 0)|} ?s (0, 1) 1"
    by code_simp
  have cr: "count_in_range ?sen"
    by code_simp
  have m: "(0, 0) |\<in>| cells ?sen" "1 \<le> count ?sen" "(0, 0) |\<in>| cells ?zero" "count ?zero = 0"
    by simp_all
  note th1 = count_range_if_truthful [where sen = ?sen and cell = "(0, 0)" and ord = remdups
      and B = "{|(0, 0)|}" and s = ?s and n = 1]
  note th2 = count_range_if_truthful [where sen = ?zero and cell = "(0, 0)" and ord = remdups
      and B = "{|(0, 0)|}" and s = ?s and n = 1]
  note th3 = count_range_if_truthful [where sen = ?zero and cell = "(0, 1)" and ord = remdups
      and B = "{|(0, 0)|}" and s = ?s and n = 1]
  from th1 cr m have 1: "count_in_range (Sentence_mark_mine ?sen (0, 0))"
    by blast
  from th2 m have 2: "count (Sentence_mark_mine ?zero (0, 0)) = - 1"
    by blast
  from th3 so ag tr have 3: "list_all count_in_range
     (knowledge (state_of (add_knowledge remdups ?s (0, 1) 1)))"
    by blast
  from cr 1 2 so ag tr 3 show ?thesis
    by blast
qed

text \<open>
  C3. As stated (the inputs are validated before any change, and a call with a cell out
  of bounds, a count outside \<open>[0, 8]\<close> or a cell marked as a mine is rejected and leaves
  the knowledge base unchanged) the claim does not hold: \<^verbatim>\<open>add_knowledge\<close> has no
  validation. The three calls below return and change the state: count 9 on the centre
  of a 3 by 3 board, the cell \<open>(7, 7)\<close> outside that board, and a cell marked as a mine.
\<close>

theorem validation_counterexample:
  "add_knowledge remdups (MinesweeperAI_init 3 3) (1, 1) 9 =
     Return \<lparr>height = 3, width = 3, moves_made = {|(1, 1)|}, mines = {||}, safes = {|(1, 1)|},
       knowledge = [\<lparr>cells = {|(0, 0), (0, 1), (0, 2), (1, 0), (1, 2), (2, 0), (2, 1), (2, 2)|},
                     count = 9\<rparr>]\<rparr> \<and>
   add_knowledge remdups (MinesweeperAI_init 3 3) (7, 7) 0 =
     Return \<lparr>height = 3, width = 3, moves_made = {|(7, 7)|}, mines = {||}, safes = {|(7, 7)|},
       knowledge = [\<lparr>cells = {||}, count = 0\<rparr>]\<rparr> \<and>
   add_knowledge remdups (MinesweeperAI_mark_mine (MinesweeperAI_init 3 3) (0, 0)) (0, 0) 1 =
     Return \<lparr>height = 3, width = 3, moves_made = {|(0, 0)|}, mines = {|(0, 0)|},
       safes = {|(0, 0)|},
       knowledge = [\<lparr>cells = {|(0, 1), (1, 0), (1, 1)|}, count = 1\<rparr>]\<rparr>"
  by code_simp

text \<open>
  C3, amended. \<^verbatim>\<open>add_knowledge\<close> validates nothing: for every cell and every count
  the cell is in \<^verbatim>\<open>moves_made\<close> and in \<^verbatim>\<open>safes\<close> after the call, whether it returns
  or raises, and the only exception it raises is the one of step 5.3, exactly when a
  count derived from a pair of \<^verbatim>\<open>subsets\<close> is negative.
\<close>

theorem no_validation:
  "cell |\<in>| moves_made (state_of (add_knowledge ord s cell n)) \<and>
   cell |\<in>| safes (state_of (add_knowledge ord s cell n)) \<and>
   (set_order ord \<longrightarrow>
      raised (add_knowledge ord s cell n) =
        (if \<exists>p \<in> set (subsets (knowledge (before_step5 ord s cell n))).
              count (knowledge (before_step5 ord s cell n) ! snd p)
                - count (knowledge (before_step5 ord s cell n) ! fst p) < 0
         then Some Exception else None))"
  using raised_add_knowledge [of ord s cell n] by (simp add: add_knowledge_simps)

theorem no_validation_witness:
  "set_order (remdups :: sentence list \<Rightarrow> sentence list) \<and>
   (7, 7) |\<in>| moves_made (state_of (add_knowledge remdups (MinesweeperAI_init 3 3) (7, 7) 9)) \<and>
   (7, 7) |\<in>| safes (state_of (add_knowledge remdups (MinesweeperAI_init 3 3) (7, 7) 9)) \<and>
   subsets (knowledge (before_step5 remdups (MinesweeperAI_init 3 3) (7, 7) 9)) = [] \<and>
   raised (add_knowledge remdups (MinesweeperAI_init 3 3) (7, 7) 9) = None"
proof -
  have so: "set_order (remdups :: sentence list \<Rightarrow> sentence list)"
    by (rule set_order_remdups)
  have sub: "subsets (knowledge (before_step5 remdups (MinesweeperAI_init 3 3) (7, 7) 9)) = []"
    unfolding before_step5_def by code_simp
  from no_validation [of "(7, 7)" remdups "MinesweeperAI_init 3 3" 9] so sub
  show ?thesis
    by simp
qed




text \<open>
  C2. The claim (a cell added to \<^verbatim>\<open>safes\<close> or \<^verbatim>\<open>mines\<close> during a call is removed from
  every live sentence, so that after the call no sentence mentions a known cell) is what
  \<^verbatim>\<open>MinesweeperAI.mark_safe\<close> and \<^verbatim>\<open>mark_mine\<close> document and what step 2 does for the
  observed cell, but step 4.4 adds the inferred cells with \<^verbatim>\<open>self.safes.add\<close> and
  \<^verbatim>\<open>self.mines.add\<close> only. On a 1 by 4 board with a mine at \<open>(0, 0)\<close>, after the
  truthful observations \<open>((0, 1), 1)\<close> and \<open>((0, 3), 0)\<close> the cell \<open>(0, 2)\<close> is known
  safe and still in the live sentence \<open>({(0, 0), (0, 2)}, 1)\<close>.
\<close>

theorem facts_not_propagated:
  "safes (state_of (add_knowledge remdups
      (state_of (add_knowledge remdups (MinesweeperAI_init 1 4) (0, 1) 1)) (0, 3) 0)) =
     {|(0, 1), (0, 3), (0, 2)|} \<and>
   knowledge (state_of (add_knowledge remdups
      (state_of (add_knowledge remdups (MinesweeperAI_init 1 4) (0, 1) 1)) (0, 3) 0)) =
     [\<lparr>cells = {|(0, 0), (0, 2)|}, count = 1\<rparr>] \<and>
   \<not> facts_propagated (state_of (add_knowledge remdups
      (state_of (add_knowledge remdups (MinesweeperAI_init 1 4) (0, 1) 1)) (0, 3) 0))"
  by code_simp




text \<open>
  C8. As stated (\<^verbatim>\<open>make_random_move\<close> returns none if and only if no cell is left that
  is neither probed nor a known mine, for every random sequence) the claim does not hold:
  the method draws at most height times width cells and gives up. On a 1 by 2 board with
  \<open>(0, 0)\<close> probed, a source that draws \<open>(0, 0)\<close> twice makes it return none although
  \<open>(0, 1)\<close> is free.
\<close>

theorem random_move_counterexample:
  "make_random_move (state_of (add_knowledge remdups (MinesweeperAI_init 1 2) (0, 0) 0))
      constant_draws = Some (Inr None) \<and>
   in_grid (state_of (add_knowledge remdups (MinesweeperAI_init 1 2) (0, 0) 0)) (0, 1) \<and>
   candidate (state_of (add_knowledge remdups (MinesweeperAI_init 1 2) (0, 0) 0)) (0, 1)"
proof -
  have s: "state_of (add_knowledge remdups (MinesweeperAI_init 1 2) (0, 0) 0) =
      \<lparr>height = 1, width = 2, moves_made = {|(0, 0)|}, mines = {||},
        safes = {|(0, 0), (0, 1)|}, knowledge = []\<rparr>"
    by code_simp
  show ?thesis
    unfolding s
    by (simp add: make_random_move_def random_loop.simps randrange_def constant_draws_def
        in_grid_def candidate_def)
qed

text \<open>
  C8, amended. On a board of positive height and width \<^verbatim>\<open>make_random_move\<close> always
  returns: the first of the first height times width cells drawn that is neither probed
  nor a known mine, and none when there is no such draw. So a cell it returns is in the
  grid, not probed and not a known mine, and it returns none whenever every cell of the
  grid is probed or a known mine. With height or width not positive it raises
  \<^verbatim>\<open>ValueError\<close>.
\<close>

theorem random_move_bounded:
  "(0 < height s \<and> 0 < width s \<longrightarrow>
      make_random_move s rnd =
        Some (Inr (List.find (candidate s)
                     (map (draw s rnd) [0..<nat (height s * width s)]))) \<and>
      (\<forall>c. make_random_move s rnd = Some (Inr (Some c)) \<longrightarrow> candidate s c \<and> in_grid s c) \<and>
      ((\<forall>c. in_grid s c \<longrightarrow> \<not> candidate s c) \<longrightarrow> make_random_move s rnd = Some (Inr None))) \<and>
   (height s \<le> 0 \<or> width s \<le> 0 \<longrightarrow> make_random_move s rnd = Some (Inl ValueError))"
proof (intro conjI impI allI)
  let ?ds = "map (draw s rnd) [0..<nat (height s * width s)]"
  {
    assume hw: "0 < height s \<and> 0 < width s"
    then have f: "make_random_move s rnd = Some (Inr (List.find (candidate s) ?ds))"
      by (simp add: make_random_move_find)
    then show "make_random_move s rnd = Some (Inr (List.find (candidate s) ?ds))" .
    {
      fix c
      assume "make_random_move s rnd = Some (Inr (Some c))"
      with f have "List.find (candidate s) ?ds = Some c"
        by simp
      then have "candidate s c" and "c \<in> set ?ds"
        by (auto simp: find_Some_iff)
      with hw show "candidate s c" and "in_grid s c"
        by (auto simp: in_grid_draw)
    }
    {
      assume "\<forall>c. in_grid s c \<longrightarrow> \<not> candidate s c"
      with hw have "\<not> candidate s (draw s rnd k)" for k
        using in_grid_draw [of s rnd k] by blast
      then have "\<forall>c \<in> set ?ds. \<not> candidate s c"
        by simp
      then have "List.find (candidate s) ?ds = None"
        by (simp add: find_None_iff)
      with f show "make_random_move s rnd = Some (Inr None)"
        by simp
    }
  }
  assume "height s \<le> 0 \<or> width s \<le> 0"
  then show "make_random_move s rnd = Some (Inl ValueError)"
    by (rule make_random_move_error)
qed

theorem random_move_bounded_witness:
  "make_random_move (MinesweeperAI_init 1 2) constant_draws = Some (Inr (Some (0, 0))) \<and>
   candidate (MinesweeperAI_init 1 2) (0, 0) \<and> in_grid (MinesweeperAI_init 1 2) (0, 0) \<and>
   make_random_move ((MinesweeperAI_init 1 1)\<lparr>moves_made := {|(0, 0)|}\<rparr>) constant_draws
     = Some (Inr None) \<and>
   make_random_move (MinesweeperAI_init 0 2) constant_draws = Some (Inl ValueError)"
proof -
  let ?s = "MinesweeperAI_init 1 2"
  let ?full = "(MinesweeperAI_init 1 1)\<lparr>moves_made := {|(0, 0)|}\<rparr>"
  have m: "make_random_move ?s constant_draws = Some (Inr (Some (0, 0)))"
    by (simp add: make_random_move_def random_loop.simps randrange_def constant_draws_def
        MinesweeperAI_init_def)
  have hw: "0 < height ?s \<and> 0 < width ?s"
    by (simp add: MinesweeperAI_init_def)
  from random_move_bounded [of ?s constant_draws] hw m
  have 1: "candidate ?s (0, 0) \<and> in_grid ?s (0, 0)"
    by blast
  have hw2: "0 < height ?full \<and> 0 < width ?full"
    by (simp add: MinesweeperAI_init_def)
  have none: "\<forall>c. in_grid ?full c \<longrightarrow> \<not> candidate ?full c"
    by (auto simp: in_grid_def candidate_def MinesweeperAI_init_def)
  from random_move_bounded [of ?full constant_draws] hw2 none
  have 2: "make_random_move ?full constant_draws = Some (Inr None)"
    by blast
  have "height (MinesweeperAI_init 0 2) \<le> 0"
    by (simp add: MinesweeperAI_init_def)
  with random_move_bounded [of "MinesweeperAI_init 0 2" constant_draws]
  have 3: "make_random_move (MinesweeperAI_init 0 2) constant_draws = Some (Inl ValueError)"
    by blast
  from m 1 2 3 show ?thesis
    by blast
qed

end
